theory Spec2Isabelle
  imports Main "HOL-Library.Word" "HOL-Library.Sublist"
begin

section \<open>The BattleCard contract\<close>

text \<open>
  A shallow embedding of the Solidity contract \<open>BattleCard\<close> (an ERC721 token whose
  tokens carry combat statistics). Solidity's \<open>uint256\<close>, \<open>uint8\<close> and \<open>address\<close> are
  words of 256, 8 and 160 bits. The contract is compiled with Solidity 0.8, so \<open>+\<close>
  and \<open>-\<close> outside an \<open>unchecked\<close> block revert with \<open>Panic(0x11)\<close> instead of wrapping.
  A reverted call is a value \<open>Inl error\<close>; the caller of a function that returned
  \<open>Inl\<close> keeps the state it had before the call.
\<close>

type_synonym u256 = "256 word"

type_synonym u8 = "8 word"

type_synonym address = "160 word"

type_synonym byte = "8 word"

subsection \<open>Errors and checked arithmetic\<close>

datatype error =
    Require string
  | Panic nat
  | ERC721NonexistentToken u256
  | ERC721InvalidReceiver address
  | ERC721InvalidSender address

fun bindE :: "error + 'a \<Rightarrow> ('a \<Rightarrow> error + 'b) \<Rightarrow> error + 'b" where
  "bindE (Inl e) f = Inl e"
| "bindE (Inr a) f = f a"

definition add_chk :: "'a::len word \<Rightarrow> 'a word \<Rightarrow> error + 'a word" where
  "add_chk a b = (if unat a + unat b < 2 ^ LENGTH('a) then Inr (a + b) else Inl (Panic 17))"

definition sub_chk :: "'a::len word \<Rightarrow> 'a word \<Rightarrow> error + 'a word" where
  "sub_chk a b = (if unat b \<le> unat a then Inr (a - b) else Inl (Panic 17))"

subsection \<open>Data\<close>

text \<open>
  \<open>struct Card { uint256 power; uint256 defense; uint256 speed; uint8 rarity; }\<close>;
  the field \<open>power\<close> is \<open>power_stat\<close> here, since \<open>power\<close> is HOL's exponentiation.
\<close>

record Card =
  power_stat :: u256
  defense :: u256
  speed :: u256
  rarity :: u8

text \<open>The event \<open>Transfer(from, to, tokenId)\<close> of ERC721.\<close>

datatype event = Transfer address address u256

text \<open>
  The storage of the contract: its own \<open>nextId\<close> and \<open>cards\<close>, the mappings
  \<open>_owners\<close>, \<open>_balances\<close> and \<open>_tokenApprovals\<close> it inherits from ERC721, and the
  events emitted so far, oldest first. The operator approvals of ERC721 and the
  owner of \<open>Ownable\<close> are left out: no function of the contract reads or writes them.
\<close>

record storage =
  nextId :: u256
  cards :: "u256 \<Rightarrow> Card"
  owners :: "u256 \<Rightarrow> address"
  balances :: "address \<Rightarrow> u256"
  tokenApprovals :: "u256 \<Rightarrow> address"
  events :: "event list"

text \<open>
  What a call sees of its transaction: \<open>block.timestamp\<close>, \<open>msg.sender\<close>, and the
  answer of the receiver check that \<open>_safeMint\<close> makes (\<open>True\<close> when the recipient
  has no code or returns the \<open>onERC721Received\<close> selector). The calls that a
  receiving contract makes back into this contract before it answers are not part
  of the environment; the subsection on receivers that call back adds them.
\<close>

record env =
  block_timestamp :: u256
  msg_sender :: address
  onERC721Received :: "address \<Rightarrow> u256 \<Rightarrow> bool"

definition zero_card :: Card where
  "zero_card = \<lparr>power_stat = 0, defense = 0, speed = 0, rarity = 0\<rparr>"

text \<open>After the constructor: \<open>nextId = 1\<close>, every mapping at its default.\<close>

definition init_state :: storage where
  "init_state = \<lparr>nextId = 1, cards = (\<lambda>_. zero_card), owners = (\<lambda>_. 0),
     balances = (\<lambda>_. 0), tokenApprovals = (\<lambda>_. 0), events = []\<rparr>"

subsection \<open>The random draw\<close>

text \<open>
  \<open>keccak256\<close> is a parameter \<open>H\<close> of the model, a function from byte strings to
  256-bit words. \<open>abi.encodePacked\<close> writes a \<open>uint256\<close> as 32 bytes and an
  \<open>address\<close> as 20 bytes, most significant byte first.
\<close>

type_synonym hash = "byte list \<Rightarrow> u256"

definition be_bytes :: "nat \<Rightarrow> 'a::len word \<Rightarrow> byte list" where
  "be_bytes n w = map (\<lambda>i. ucast (drop_bit (8 * i) w)) (rev [0..<n])"

text \<open>\<open>uint256(keccak256(abi.encodePacked(block.timestamp, msg.sender, tokenId)))\<close>\<close>

definition derive_mint :: "hash \<Rightarrow> env \<Rightarrow> u256 \<Rightarrow> u256" where
  "derive_mint H e tokenId =
     H (be_bytes 32 (block_timestamp e) @ be_bytes 20 (msg_sender e) @ be_bytes 32 tokenId)"

text \<open>\<open>uint256(keccak256(abi.encodePacked(block.timestamp, msg.sender)))\<close>\<close>

definition derive_battle :: "hash \<Rightarrow> env \<Rightarrow> u256" where
  "derive_battle H e = H (be_bytes 32 (block_timestamp e) @ be_bytes 20 (msg_sender e))"

subsection \<open>The inherited ERC721 functions\<close>

text \<open>
  The contract imports \<open>ERC721\<close> and \<open>Ownable\<close> from OpenZeppelin Contracts; their
  source is not part of the repository. The definitions of this subsection follow
  version 5 of that library (the one whose \<open>Ownable\<close> takes the initial owner as a
  constructor argument, as the contract's constructor passes it), with the library's
  own names less the leading underscore. \<open>ownerOf\<close> reverts for a token without an
  owner. Where the receiver check of \<open>_safeMint\<close> fails, the model reverts with
  \<open>ERC721InvalidReceiver\<close>; the library passes on the receiver's own revert reason
  when there is one.
\<close>

definition ownerOf :: "storage \<Rightarrow> u256 \<Rightarrow> error + address" where
  "ownerOf s tokenId =
     (if owners s tokenId = 0 then Inl (ERC721NonexistentToken tokenId)
      else Inr (owners s tokenId))"

text \<open>
  \<open>_update(to, tokenId, address(0))\<close>: clears the approval and decrements the balance
  of the previous owner (unchecked), increments the balance of the new owner
  (unchecked), stores the new owner, emits \<open>Transfer\<close> and returns the previous owner.
\<close>

definition update :: "address \<Rightarrow> u256 \<Rightarrow> storage \<Rightarrow> address \<times> storage" where
  "update to_addr tokenId s =
     (let from_addr = owners s tokenId;
          s1 = (if from_addr \<noteq> 0
                then s\<lparr>tokenApprovals := (tokenApprovals s)(tokenId := 0),
                       balances := (balances s)(from_addr := balances s from_addr - 1)\<rparr>
                else s);
          s2 = (if to_addr \<noteq> 0
                then s1\<lparr>balances := (balances s1)(to_addr := balances s1 to_addr + 1)\<rparr>
                else s1);
          s3 = s2\<lparr>owners := (owners s2)(tokenId := to_addr),
                  events := events s2 @ [Transfer from_addr to_addr tokenId]\<rparr>
      in (from_addr, s3))"

definition mint :: "address \<Rightarrow> u256 \<Rightarrow> storage \<Rightarrow> error + storage" where
  "mint to_addr tokenId s =
     (if to_addr = 0 then Inl (ERC721InvalidReceiver 0)
      else let (previousOwner, s') = update to_addr tokenId s
           in if previousOwner \<noteq> 0 then Inl (ERC721InvalidSender 0) else Inr s')"

text \<open>
  \<open>_safeMint\<close> for a receiver that does not call back into the contract: the
  token is minted and the receiver's answer decides whether the call goes on.
  \<open>mintCard\<close> and \<open>upgrade\<close> below are built on it; \<open>safeMint_re\<close>,
  \<open>mintCard_re\<close> and \<open>upgrade_re\<close> further down add the receiver's own calls.
\<close>

definition safeMint :: "env \<Rightarrow> address \<Rightarrow> u256 \<Rightarrow> storage \<Rightarrow> error + storage" where
  "safeMint e to_addr tokenId s =
     bindE (mint to_addr tokenId s) (\<lambda>s'.
       if onERC721Received e to_addr tokenId then Inr s'
       else Inl (ERC721InvalidReceiver to_addr))"

definition burn :: "u256 \<Rightarrow> storage \<Rightarrow> error + storage" where
  "burn tokenId s =
     (let (previousOwner, s') = update 0 tokenId s
      in if previousOwner = 0 then Inl (ERC721NonexistentToken tokenId) else Inr s')"

subsection \<open>The functions of BattleCard\<close>

definition mintCard :: "hash \<Rightarrow> env \<Rightarrow> storage \<Rightarrow> error + storage" where
  "mintCard H e s =
     bindE (add_chk (nextId s) 1) (\<lambda>n.
     let tokenId = nextId s; s1 = s\<lparr>nextId := n\<rparr> in
     bindE (safeMint e (msg_sender e) tokenId s1) (\<lambda>s2.
     let rand = derive_mint H e tokenId in
     bindE (add_chk (rand mod 50) 50) (\<lambda>p.
     bindE (add_chk (rand mod 40) 30) (\<lambda>d.
     bindE (add_chk (rand mod 20) 10) (\<lambda>v.
     bindE (add_chk (rand mod 5) 1) (\<lambda>r.
       Inr (s2\<lparr>cards := (cards s2)(tokenId :=
              \<lparr>power_stat = p, defense = d, speed = v, rarity = ucast r\<rparr>)\<rparr>)))))))"

definition getCard :: "storage \<Rightarrow> u256 \<Rightarrow> error + Card" where
  "getCard s tokenId = Inr (cards s tokenId)"

text \<open>
  The condition of \<open>battle\<close>'s \<open>require\<close>; \<open>&&\<close> evaluates its second operand only
  when the first is true.
\<close>

definition both_valid :: "storage \<Rightarrow> u256 \<Rightarrow> u256 \<Rightarrow> error + bool" where
  "both_valid s card1 card2 =
     bindE (ownerOf s card1) (\<lambda>o1.
       if o1 \<noteq> 0 then bindE (ownerOf s card2) (\<lambda>o2. Inr (o2 \<noteq> 0)) else Inr False)"

definition battle :: "hash \<Rightarrow> env \<Rightarrow> u256 \<Rightarrow> u256 \<Rightarrow> storage \<Rightarrow> error + string" where
  "battle H e card1 card2 s =
     (let c1 = cards s card1; c2 = cards s card2 in
      bindE (both_valid s card1 card2) (\<lambda>ok.
      if \<not> ok then Inl (Require ''Invalid card'') else
      bindE (add_chk (power_stat c1) (defense c1 div 2)) (\<lambda>a1.
      bindE (add_chk a1 (speed c1)) (\<lambda>score1.
      bindE (add_chk (power_stat c2) (defense c2 div 2)) (\<lambda>a2.
      bindE (add_chk a2 (speed c2)) (\<lambda>score2.
      let rand = derive_battle H e mod 10 in
      bindE (add_chk score1 rand) (\<lambda>score1.
      bindE (sub_chk 10 rand) (\<lambda>k.
      bindE (add_chk score2 k) (\<lambda>score2.
        if score1 > score2 then Inr ''Card 1 Wins!''
        else if score2 > score1 then Inr ''Card 2 Wins!''
        else Inr ''Draw!'')))))))))"

text \<open>The condition of \<open>upgrade\<close>'s \<open>require\<close>, with the same short circuit.\<close>

definition owns_both :: "env \<Rightarrow> storage \<Rightarrow> u256 \<Rightarrow> u256 \<Rightarrow> error + bool" where
  "owns_both e s id1 id2 =
     bindE (ownerOf s id1) (\<lambda>o1.
       if o1 = msg_sender e then bindE (ownerOf s id2) (\<lambda>o2. Inr (o2 = msg_sender e))
       else Inr False)"

definition upgrade :: "env \<Rightarrow> u256 \<Rightarrow> u256 \<Rightarrow> storage \<Rightarrow> error + storage" where
  "upgrade e id1 id2 s =
     bindE (owns_both e s id1 id2) (\<lambda>ok.
     if \<not> ok then Inl (Require ''Not owner'') else
     bindE (burn id1 s) (\<lambda>s1.
     bindE (burn id2 s1) (\<lambda>s2.
     bindE (add_chk (nextId s2) 1) (\<lambda>n.
     let newId = nextId s2; s3 = s2\<lparr>nextId := n\<rparr> in
     bindE (safeMint e (msg_sender e) newId s3) (\<lambda>s4.
     let c1 = cards s4 id1; c2 = cards s4 id2 in
     bindE (add_chk (power_stat c1) (power_stat c2)) (\<lambda>ps.
     bindE (add_chk (ps div 2) 10) (\<lambda>p.
     bindE (add_chk (defense c1) (defense c2)) (\<lambda>ds.
     bindE (add_chk (ds div 2) 5) (\<lambda>d.
     bindE (add_chk (speed c1) (speed c2)) (\<lambda>vs.
     bindE (add_chk (vs div 2) 5) (\<lambda>v.
     bindE (add_chk (rarity c1) (rarity c2)) (\<lambda>rs.
     bindE (add_chk (rs div 2) 1) (\<lambda>r.
       Inr (s4\<lparr>cards := (cards s4)(newId :=
              \<lparr>power_stat = p, defense = d, speed = v, rarity = r\<rparr>)\<rparr>))))))))))))))"

subsection \<open>Calls and their effect on the storage\<close>

text \<open>
  One external call of the contract. A call that reverts leaves the storage as it
  was; \<open>getCard\<close> and \<open>battle\<close> are \<open>view\<close> functions and return a value only.
  \<open>run\<close> executes a list of calls, each with its own transaction environment.
  In \<open>exec\<close> and \<open>run\<close> no receiver calls back; \<open>exec_re\<close>, \<open>run_calls\<close> and
  \<open>run_txs\<close> in the next subsection are the general case.
\<close>

datatype call = MintCard | GetCard u256 | Battle u256 u256 | Upgrade u256 u256

datatype retval = Unit | CardVal Card | StringVal string

definition exec :: "hash \<Rightarrow> env \<Rightarrow> call \<Rightarrow> storage \<Rightarrow> (error + retval) \<times> storage" where
  "exec H e c s =
     (case c of
        MintCard \<Rightarrow>
          (case mintCard H e s of Inl err \<Rightarrow> (Inl err, s) | Inr s' \<Rightarrow> (Inr Unit, s'))
      | GetCard tokenId \<Rightarrow> (map_sum id CardVal (getCard s tokenId), s)
      | Battle card1 card2 \<Rightarrow> (map_sum id StringVal (battle H e card1 card2 s), s)
      | Upgrade id1 id2 \<Rightarrow>
          (case upgrade e id1 id2 s of Inl err \<Rightarrow> (Inl err, s) | Inr s' \<Rightarrow> (Inr Unit, s')))"

fun run :: "hash \<Rightarrow> (env \<times> call) list \<Rightarrow> storage \<Rightarrow> storage" where
  "run H [] s = s"
| "run H ((e, c) # cs) s = run H cs (snd (exec H e c s))"

subsection \<open>Receivers that call back\<close>

text \<open>
  \<open>_safeMint\<close> calls \<open>onERC721Received\<close> on a recipient that has code, after the
  token is owned and the \<open>Transfer\<close> event is emitted, and before \<open>mintCard\<close> or
  \<open>upgrade\<close> reads and writes \<open>cards\<close>. The receiver may call the contract
  again before it answers. \<open>hook\<close> is what those calls make of the storage; when
  the receiver does not accept, or fails, the whole call reverts and they are undone
  with it. The three functions below are \<open>safeMint\<close>, \<open>mintCard\<close> and \<open>upgrade\<close>
  with that one addition.
\<close>

definition safeMint_re ::
  "(storage \<Rightarrow> storage) \<Rightarrow> env \<Rightarrow> address \<Rightarrow> u256 \<Rightarrow> storage \<Rightarrow> error + storage" where
  "safeMint_re hook e to_addr tokenId s =
     bindE (mint to_addr tokenId s) (\<lambda>s'.
       if onERC721Received e to_addr tokenId then Inr (hook s')
       else Inl (ERC721InvalidReceiver to_addr))"

definition mintCard_re ::
  "(storage \<Rightarrow> storage) \<Rightarrow> hash \<Rightarrow> env \<Rightarrow> storage \<Rightarrow> error + storage" where
  "mintCard_re hook H e s =
     bindE (add_chk (nextId s) 1) (\<lambda>n.
     let tokenId = nextId s; s1 = s\<lparr>nextId := n\<rparr> in
     bindE (safeMint_re hook e (msg_sender e) tokenId s1) (\<lambda>s2.
     let rand = derive_mint H e tokenId in
     bindE (add_chk (rand mod 50) 50) (\<lambda>p.
     bindE (add_chk (rand mod 40) 30) (\<lambda>d.
     bindE (add_chk (rand mod 20) 10) (\<lambda>v.
     bindE (add_chk (rand mod 5) 1) (\<lambda>r.
       Inr (s2\<lparr>cards := (cards s2)(tokenId :=
              \<lparr>power_stat = p, defense = d, speed = v, rarity = ucast r\<rparr>)\<rparr>)))))))"

definition upgrade_re ::
  "(storage \<Rightarrow> storage) \<Rightarrow> env \<Rightarrow> u256 \<Rightarrow> u256 \<Rightarrow> storage \<Rightarrow> error + storage" where
  "upgrade_re hook e id1 id2 s =
     bindE (owns_both e s id1 id2) (\<lambda>ok.
     if \<not> ok then Inl (Require ''Not owner'') else
     bindE (burn id1 s) (\<lambda>s1.
     bindE (burn id2 s1) (\<lambda>s2.
     bindE (add_chk (nextId s2) 1) (\<lambda>n.
     let newId = nextId s2; s3 = s2\<lparr>nextId := n\<rparr> in
     bindE (safeMint_re hook e (msg_sender e) newId s3) (\<lambda>s4.
     let c1 = cards s4 id1; c2 = cards s4 id2 in
     bindE (add_chk (power_stat c1) (power_stat c2)) (\<lambda>ps.
     bindE (add_chk (ps div 2) 10) (\<lambda>p.
     bindE (add_chk (defense c1) (defense c2)) (\<lambda>ds.
     bindE (add_chk (ds div 2) 5) (\<lambda>d.
     bindE (add_chk (speed c1) (speed c2)) (\<lambda>vs.
     bindE (add_chk (vs div 2) 5) (\<lambda>v.
     bindE (add_chk (rarity c1) (rarity c2)) (\<lambda>rs.
     bindE (add_chk (rs div 2) 1) (\<lambda>r.
       Inr (s4\<lparr>cards := (cards s4)(newId :=
              \<lparr>power_stat = p, defense = d, speed = v, rarity = r\<rparr>)\<rparr>))))))))))))))"

definition exec_re ::
  "(storage \<Rightarrow> storage) \<Rightarrow> hash \<Rightarrow> env \<Rightarrow> call \<Rightarrow> storage \<Rightarrow> (error + retval) \<times> storage" where
  "exec_re hook H e c s =
     (case c of
        MintCard \<Rightarrow>
          (case mintCard_re hook H e s of
             Inl err \<Rightarrow> (Inl err, s) | Inr s' \<Rightarrow> (Inr Unit, s'))
      | GetCard tokenId \<Rightarrow> (map_sum id CardVal (getCard s tokenId), s)
      | Battle card1 card2 \<Rightarrow> (map_sum id StringVal (battle H e card1 card2 s), s)
      | Upgrade id1 id2 \<Rightarrow>
          (case upgrade_re hook e id1 id2 s of
             Inl err \<Rightarrow> (Inl err, s) | Inr s' \<Rightarrow> (Inr Unit, s')))"

text \<open>
  The calls that reach the contract within one transaction. \<open>Call a ok c nested rest\<close>
  is the call \<open>c\<close> with sender \<open>a\<close>; if \<open>c\<close> gets to the receiver check, the
  receiver makes the calls \<open>nested\<close> and then answers \<open>ok\<close>; after \<open>c\<close> the calls
  \<open>rest\<close> follow. Every call of a transaction sees the transaction's timestamp. A
  recipient without code is \<open>nested = Done\<close> and \<open>ok = True\<close>. The calls are those
  of the contract's own four functions; the entry points it inherits from ERC721
  (transfers and approvals) are not among them.
\<close>

datatype calls = Done | Call address bool call calls calls

definition call_env :: "u256 \<Rightarrow> address \<Rightarrow> bool \<Rightarrow> env" where
  "call_env ts a ok = \<lparr>block_timestamp = ts, msg_sender = a, onERC721Received = (\<lambda>_ _. ok)\<rparr>"

fun run_calls :: "hash \<Rightarrow> u256 \<Rightarrow> calls \<Rightarrow> storage \<Rightarrow> storage" where
  "run_calls H ts Done s = s"
| "run_calls H ts (Call a ok c nested rest) s =
     run_calls H ts rest
       (snd (exec_re (\<lambda>t. run_calls H ts nested t) H (call_env ts a ok) c s))"

text \<open>
  A history of the contract: transactions, each with its timestamp and its calls.
\<close>

fun run_txs :: "hash \<Rightarrow> (u256 \<times> calls) list \<Rightarrow> storage \<Rightarrow> storage" where
  "run_txs H [] s = s"
| "run_txs H ((ts, cs) # txs) s = run_txs H txs (run_calls H ts cs s)"

subsection \<open>Observations\<close>

text \<open>
  The ids handed out so far are the token ids of the \<open>Transfer\<close> events whose
  sender is the zero address, in the order of emission.
\<close>

fun minted :: "event \<Rightarrow> u256 list" where
  "minted (Transfer from_addr to_addr tokenId) = (if from_addr = 0 then [tokenId] else [])"

definition minted_ids :: "storage \<Rightarrow> u256 list" where
  "minted_ids s = concat (map minted (events s))"

text \<open>
  The storage at the moment the receiver is called from a mint to \<open>a\<close>: the
  counter is one further and the token \<open>nextId s\<close> is minted to \<open>a\<close>.
\<close>

definition at_hook :: "address \<Rightarrow> storage \<Rightarrow> storage" where
  "at_hook a s = snd (update a (nextId s) (s\<lparr>nextId := nextId s + 1\<rparr>))"

text \<open>
  \<open>extends s s'\<close>: from \<open>s\<close> to \<open>s'\<close> events were only added, the counter did not
  go back, and the ids handed out in between are the values the counter went
  through, in order.
\<close>

definition extends :: "storage \<Rightarrow> storage \<Rightarrow> bool" where
  "extends s s' \<longleftrightarrow> prefix (events s) (events s') \<and> unat (nextId s) \<le> unat (nextId s') \<and>
     map unat (minted_ids s') = map unat (minted_ids s) @ [unat (nextId s)..<unat (nextId s')]"

text \<open>
  Every id that has an owner is below the counter.
\<close>

definition owned_below :: "storage \<Rightarrow> bool" where
  "owned_below s \<longleftrightarrow> (\<forall>i. owners s i \<noteq> 0 \<longrightarrow> i < nextId s)"

text \<open>
  The score of a card and the decision of a comparison as the specification words
  them, over the natural numbers.
\<close>

definition round_score :: "Card \<Rightarrow> nat" where
  "round_score c = unat (power_stat c) + unat (defense c) div 2 + unat (speed c)"

definition round_winner :: "nat \<Rightarrow> nat \<Rightarrow> string" where
  "round_winner total1 total2 =
     (if total1 > total2 then ''Card 1 Wins!''
      else if total2 > total1 then ''Card 2 Wins!'' else ''Draw!'')"

subsection \<open>Concrete states\<close>

text \<open>
  Two accounts and three transaction environments; the storage after one and two
  calls of \<open>mintCard\<close> by \<open>alice\<close> with a hash that returns 4, and after fusing the two
  cards; and a storage holding the two cards of the specification's fusion example.
\<close>

definition alice :: address where "alice = 0xA11CE"

definition bob :: address where "bob = 0xB0B"

definition demo_env :: env where
  "demo_env = \<lparr>block_timestamp = 1700000000, msg_sender = alice,
     onERC721Received = (\<lambda>_ _. True)\<rparr>"

definition bob_env :: env where
  "bob_env = \<lparr>block_timestamp = 1700000000, msg_sender = bob,
     onERC721Received = (\<lambda>_ _. True)\<rparr>"

definition picky_env :: env where
  "picky_env = \<lparr>block_timestamp = 1700000000, msg_sender = alice,
     onERC721Received = (\<lambda>_ tokenId. tokenId = 1)\<rparr>"

definition rare_card :: Card where
  "rare_card = \<lparr>power_stat = 54, defense = 34, speed = 14, rarity = 5\<rparr>"

definition minted_once :: storage where
  "minted_once = \<lparr>nextId = 2, cards = (\<lambda>_. zero_card)(1 := rare_card),
     owners = (\<lambda>_. 0)(1 := alice), balances = (\<lambda>_. 0)(alice := 1),
     tokenApprovals = (\<lambda>_. 0), events = [Transfer 0 alice 1]\<rparr>"

definition minted_twice :: storage where
  "minted_twice = \<lparr>nextId = 3, cards = (\<lambda>_. zero_card)(1 := rare_card, 2 := rare_card),
     owners = (\<lambda>_. 0)(1 := alice, 2 := alice), balances = (\<lambda>_. 0)(alice := 2),
     tokenApprovals = (\<lambda>_. 0), events = [Transfer 0 alice 1, Transfer 0 alice 2]\<rparr>"

definition fused_card :: Card where
  "fused_card = \<lparr>power_stat = 64, defense = 39, speed = 19, rarity = 6\<rparr>"

definition fused :: storage where
  "fused = \<lparr>nextId = 4,
     cards = (\<lambda>_. zero_card)(1 := rare_card, 2 := rare_card, 3 := fused_card),
     owners = (\<lambda>_. 0)(3 := alice), balances = (\<lambda>_. 0)(alice := 1),
     tokenApprovals = (\<lambda>_. 0),
     events = [Transfer 0 alice 1, Transfer 0 alice 2, Transfer alice 0 1, Transfer alice 0 2,
               Transfer 0 alice 3]\<rparr>"

definition pair_state :: storage where
  "pair_state = \<lparr>nextId = 3,
     cards = (\<lambda>_. zero_card)
       (1 := \<lparr>power_stat = 60, defense = 40, speed = 20, rarity = 2\<rparr>,
        2 := \<lparr>power_stat = 80, defense = 50, speed = 25, rarity = 4\<rparr>),
     owners = (\<lambda>_. 0)(1 := alice, 2 := alice), balances = (\<lambda>_. 0)(alice := 2),
     tokenApprovals = (\<lambda>_. 0), events = [Transfer 0 alice 1, Transfer 0 alice 2]\<rparr>"

definition pair_fused :: storage where
  "pair_fused = \<lparr>nextId = 4,
     cards = (\<lambda>_. zero_card)
       (1 := \<lparr>power_stat = 60, defense = 40, speed = 20, rarity = 2\<rparr>,
        2 := \<lparr>power_stat = 80, defense = 50, speed = 25, rarity = 4\<rparr>,
        3 := \<lparr>power_stat = 80, defense = 50, speed = 27, rarity = 4\<rparr>),
     owners = (\<lambda>_. 0)(3 := alice), balances = (\<lambda>_. 0)(alice := 1),
     tokenApprovals = (\<lambda>_. 0),
     events = [Transfer 0 alice 1, Transfer 0 alice 2, Transfer alice 0 1, Transfer alice 0 2,
               Transfer 0 alice 3]\<rparr>"

text \<open>
  The storage after \<open>alice\<close>, a contract, has minted card 1 and then called
  \<open>mintCard\<close> again and, when asked to receive card 2, fused cards 1 and 2: the
  fusion read card 2 before the outer call had written it.
\<close>

definition odd_card :: Card where
  "odd_card = \<lparr>power_stat = 37, defense = 22, speed = 12, rarity = 3\<rparr>"

definition reentered :: storage where
  "reentered = \<lparr>nextId = 4,
     cards = (\<lambda>_. zero_card)(1 := rare_card, 3 := odd_card, 2 := rare_card),
     owners = (\<lambda>_. 0)(3 := alice), balances = (\<lambda>_. 0)(alice := 1),
     tokenApprovals = (\<lambda>_. 0),
     events = [Transfer 0 alice 1, Transfer 0 alice 2, Transfer alice 0 1, Transfer alice 0 2,
               Transfer 0 alice 3]\<rparr>"

section \<open>Properties\<close>

subsection \<open>Checked arithmetic\<close>

lemma bindE_Inr: "bindE m f = Inr y \<longleftrightarrow> (\<exists>x. m = Inr x \<and> f x = Inr y)"
  by (cases m) simp_all

lemma add_chk_Inr: "add_chk a b = Inr c \<longleftrightarrow> unat a + unat b < 2 ^ LENGTH('a) \<and> c = a + b"
  for a b c :: "'a::len word"
  by (auto simp: add_chk_def)

lemma unat_add_chk: "add_chk a b = Inr c \<Longrightarrow> unat c = unat a + unat b"
  by (auto simp: add_chk_def unat_word_ariths split: if_splits)

lemma add_chk_fits:
  fixes a b :: "'a::len word"
  assumes "unat a + unat b < 2 ^ LENGTH('a)"
  shows "add_chk a b = Inr (a + b)" and "unat (a + b) = unat a + unat b"
  using assms by (simp_all add: add_chk_def unat_add_lem [THEN iffD1])

lemma sub_chk_Inr: "sub_chk a b = Inr c \<longleftrightarrow> unat b \<le> unat a \<and> c = a - b"
  by (auto simp: sub_chk_def)

lemma unat_sub_chk: "sub_chk a b = Inr c \<Longrightarrow> unat c = unat a - unat b"
  by (auto simp: sub_chk_def unat_sub word_le_nat_alt split: if_splits)

lemma unat_10_sub:
  fixes r :: u256
  assumes "sub_chk 10 (r mod 10) = Inr k"
  shows "unat k = 10 - unat r mod 10"
  using unat_sub_chk [OF assms] by (simp add: unat_mod)

lemma less_succ:
  fixes n :: u256
  assumes "unat n + 1 < 2 ^ 256"
  shows "n < n + 1" and "i < n \<Longrightarrow> i < n + 1" and "unat (n + 1) = unat n + 1"
proof -
  show u: "unat (n + 1) = unat n + 1"
    using assms unat_add_lem [of n 1] by simp
  then show "n < n + 1"
    by (simp add: word_less_nat_alt)
  show "i < n \<Longrightarrow> i < n + 1"
    using u by (simp add: word_less_nat_alt)
qed

lemma mod_attr:
  fixes r :: u256
  shows "add_chk (r mod 50) 50 = Inr (r mod 50 + 50)"
    and "add_chk (r mod 40) 30 = Inr (r mod 40 + 30)"
    and "add_chk (r mod 20) 10 = Inr (r mod 20 + 10)"
    and "add_chk (r mod 5) 1 = Inr (r mod 5 + 1)"
  by (simp_all add: add_chk_def unat_mod)

lemma unat_attr:
  fixes r :: u256
  shows "unat (r mod 50 + 50) = unat r mod 50 + 50"
    and "unat (r mod 40 + 30) = unat r mod 40 + 30"
    and "unat (r mod 20 + 10) = unat r mod 20 + 10"
    and "unat (r mod 5 + 1) = unat r mod 5 + 1"
  using mod_attr [of r, THEN unat_add_chk] by (simp_all add: unat_mod)

lemma unat_rarity:
  fixes r :: u256
  shows "unat (ucast (r mod 5 + 1) :: u8) = unat r mod 5 + 1"
proof -
  have "unat (ucast (r mod 5 + 1) :: u8) = unat (r mod 5 + 1) mod 2 ^ 8"
    by (simp add: unsigned_ucast_eq take_bit_eq_mod)
  also have "\<dots> = unat r mod 5 + 1"
    by (simp add: unat_attr)
  finally show ?thesis .
qed

subsection \<open>ERC721\<close>

lemma update_fields:
  "nextId (snd (update t i s)) = nextId s"
  "cards (snd (update t i s)) = cards s"
  "owners (snd (update t i s)) = (owners s)(i := t)"
  "events (snd (update t i s)) = events s @ [Transfer (owners s i) t i]"
  "fst (update t i s) = owners s i"
  by (simp_all add: update_def Let_def)

lemma mint_Inr:
  "mint t i s = Inr s' \<longleftrightarrow> t \<noteq> 0 \<and> owners s i = 0 \<and> s' = snd (update t i s)"
  by (auto simp: mint_def split_beta update_fields)

lemma safeMint_Inr:
  "safeMint e t i s = Inr s' \<longleftrightarrow>
     t \<noteq> 0 \<and> owners s i = 0 \<and> onERC721Received e t i \<and> s' = snd (update t i s)"
  by (auto simp: safeMint_def bindE_Inr mint_Inr)

lemma burn_Inr:
  "burn i s = Inr s' \<longleftrightarrow> owners s i \<noteq> 0 \<and> s' = snd (update 0 i s)"
  by (auto simp: burn_def split_beta update_fields)

lemma ownerOf_Inr: "ownerOf s i = Inr a \<longleftrightarrow> owners s i \<noteq> 0 \<and> a = owners s i"
  by (auto simp: ownerOf_def)

lemma both_valid_Inr:
  "both_valid s a b = Inr ok \<longleftrightarrow> owners s a \<noteq> 0 \<and> owners s b \<noteq> 0 \<and> ok"
  by (auto simp: both_valid_def bindE_Inr ownerOf_Inr)

lemma owns_both_Inr:
  "owns_both e s a b = Inr ok \<longleftrightarrow>
     owners s a \<noteq> 0 \<and>
     (if owners s a = msg_sender e then owners s b \<noteq> 0 \<and> ok = (owners s b = msg_sender e)
      else \<not> ok)"
  by (auto simp: owns_both_def bindE_Inr ownerOf_Inr)

subsection \<open>What a successful call does\<close>

lemma mintCard_Inr:
  "mintCard H e s = Inr s' \<longleftrightarrow>
     unat (nextId s) + 1 < 2 ^ 256 \<and> msg_sender e \<noteq> 0 \<and> owners s (nextId s) = 0 \<and>
     onERC721Received e (msg_sender e) (nextId s) \<and>
     s' = (snd (update (msg_sender e) (nextId s) (s\<lparr>nextId := nextId s + 1\<rparr>)))
            \<lparr>cards := (cards s)(nextId s :=
               \<lparr>power_stat = derive_mint H e (nextId s) mod 50 + 50,
                defense = derive_mint H e (nextId s) mod 40 + 30,
                speed = derive_mint H e (nextId s) mod 20 + 10,
                rarity = ucast (derive_mint H e (nextId s) mod 5 + 1)\<rparr>)\<rparr>"
  by (auto simp: mintCard_def Let_def bindE_Inr add_chk_Inr [where b = 1] mod_attr safeMint_Inr update_fields)

lemma mintCard_card:
  assumes "mintCard H e s = Inr s'"
  shows "cards s' (nextId s) =
     \<lparr>power_stat = derive_mint H e (nextId s) mod 50 + 50,
      defense = derive_mint H e (nextId s) mod 40 + 30,
      speed = derive_mint H e (nextId s) mod 20 + 10,
      rarity = ucast (derive_mint H e (nextId s) mod 5 + 1)\<rparr>"
  using assms by (simp add: mintCard_Inr)

lemma upgradeE:
  assumes "upgrade e id1 id2 s = Inr s'"
  obtains s1 s2 s4 ps ds vs rs where
    "owners s id1 = msg_sender e" "owners s id2 = msg_sender e" "msg_sender e \<noteq> 0"
    "burn id1 s = Inr s1" "burn id2 s1 = Inr s2"
    "unat (nextId s2) + 1 < 2 ^ 256"
    "safeMint e (msg_sender e) (nextId s2) (s2\<lparr>nextId := nextId s2 + 1\<rparr>) = Inr s4"
    "add_chk (power_stat (cards s4 id1)) (power_stat (cards s4 id2)) = Inr ps"
    "add_chk (defense (cards s4 id1)) (defense (cards s4 id2)) = Inr ds"
    "add_chk (speed (cards s4 id1)) (speed (cards s4 id2)) = Inr vs"
    "add_chk (rarity (cards s4 id1)) (rarity (cards s4 id2)) = Inr rs"
    "unat (ps div 2) + 10 < 2 ^ 256" "unat (ds div 2) + 5 < 2 ^ 256"
    "unat (vs div 2) + 5 < 2 ^ 256" "unat (rs div 2) + 1 < 2 ^ 8"
    "s' = s4\<lparr>cards := (cards s4)(nextId s2 :=
            \<lparr>power_stat = ps div 2 + 10, defense = ds div 2 + 5, speed = vs div 2 + 5,
             rarity = rs div 2 + 1\<rparr>)\<rparr>"
proof -
  from assms obtain ok where ok: "owns_both e s id1 id2 = Inr ok" and ok': ok
    by (auto simp: upgrade_def bindE_Inr split: if_splits)
  then have o: "owners s id1 = msg_sender e" "owners s id2 = msg_sender e" "msg_sender e \<noteq> 0"
    by (auto simp: owns_both_Inr split: if_splits)
  from assms ok ok' obtain s1 where s1: "burn id1 s = Inr s1"
    by (auto simp: upgrade_def bindE_Inr)
  from assms ok ok' s1 obtain s2 where s2: "burn id2 s1 = Inr s2"
    by (auto simp: upgrade_def bindE_Inr)
  from assms ok ok' s1 s2 have n: "unat (nextId s2) + 1 < 2 ^ 256"
    by (auto simp: upgrade_def bindE_Inr add_chk_Inr [where b = 1])
  then have n': "add_chk (nextId s2) 1 = Inr (nextId s2 + 1)"
    by (simp add: add_chk_Inr)
  from assms ok ok' s1 s2 n' obtain s4 where
    s4: "safeMint e (msg_sender e) (nextId s2) (s2\<lparr>nextId := nextId s2 + 1\<rparr>) = Inr s4"
    by (auto simp: upgrade_def bindE_Inr Let_def)
  from assms ok ok' s1 s2 n' s4 show thesis
    by (intro that [OF o s1 s2 n s4])
       (auto simp: upgrade_def bindE_Inr Let_def add_chk_Inr)
qed

lemma upgrade_new_card:
  assumes "upgrade e id1 id2 s = Inr s'"
  shows "unat (power_stat (cards s' (nextId s))) =
           (unat (power_stat (cards s id1)) + unat (power_stat (cards s id2))) div 2 + 10"
    "unat (defense (cards s' (nextId s))) =
           (unat (defense (cards s id1)) + unat (defense (cards s id2))) div 2 + 5"
    "unat (speed (cards s' (nextId s))) =
           (unat (speed (cards s id1)) + unat (speed (cards s id2))) div 2 + 5"
    "unat (rarity (cards s' (nextId s))) =
           (unat (rarity (cards s id1)) + unat (rarity (cards s id2))) div 2 + 1"
proof -
  from assms obtain s1 s2 s4 ps ds vs rs where
    s1: "burn id1 s = Inr s1" and s2: "burn id2 s1 = Inr s2" and
    s4: "safeMint e (msg_sender e) (nextId s2) (s2\<lparr>nextId := nextId s2 + 1\<rparr>) = Inr s4" and
    ps: "add_chk (power_stat (cards s4 id1)) (power_stat (cards s4 id2)) = Inr ps" and
    ds: "add_chk (defense (cards s4 id1)) (defense (cards s4 id2)) = Inr ds" and
    vs: "add_chk (speed (cards s4 id1)) (speed (cards s4 id2)) = Inr vs" and
    rs: "add_chk (rarity (cards s4 id1)) (rarity (cards s4 id2)) = Inr rs" and
    b: "unat (ps div 2) + 10 < 2 ^ 256" "unat (ds div 2) + 5 < 2 ^ 256"
       "unat (vs div 2) + 5 < 2 ^ 256" "unat (rs div 2) + 1 < 2 ^ 8" and
    s': "s' = s4\<lparr>cards := (cards s4)(nextId s2 :=
            \<lparr>power_stat = ps div 2 + 10, defense = ds div 2 + 5, speed = vs div 2 + 5,
             rarity = rs div 2 + 1\<rparr>)\<rparr>"
    by (rule upgradeE) blast
  have n2: "nextId s2 = nextId s" and c4: "cards s4 = cards s"
    using s1 s2 s4 by (simp_all add: burn_Inr safeMint_Inr update_fields)
  have u: "unat (ps div 2 + 10) = unat (ps div 2) + 10" "unat (ds div 2 + 5) = unat (ds div 2) + 5"
    "unat (vs div 2 + 5) = unat (vs div 2) + 5" "unat (rs div 2 + 1) = unat (rs div 2) + 1"
    using b by (simp_all add: unat_add_lem [THEN iffD1])
  show "unat (power_stat (cards s' (nextId s))) =
           (unat (power_stat (cards s id1)) + unat (power_stat (cards s id2))) div 2 + 10"
    using unat_add_chk [OF ps] by (simp add: s' n2 c4 u unat_div)
  show "unat (defense (cards s' (nextId s))) =
           (unat (defense (cards s id1)) + unat (defense (cards s id2))) div 2 + 5"
    using unat_add_chk [OF ds] by (simp add: s' n2 c4 u unat_div)
  show "unat (speed (cards s' (nextId s))) =
           (unat (speed (cards s id1)) + unat (speed (cards s id2))) div 2 + 5"
    using unat_add_chk [OF vs] by (simp add: s' n2 c4 u unat_div)
  show "unat (rarity (cards s' (nextId s))) =
           (unat (rarity (cards s id1)) + unat (rarity (cards s id2))) div 2 + 1"
    using unat_add_chk [OF rs] by (simp add: s' n2 c4 u unat_div)
qed

lemma upgrade_card_word:
  assumes "upgrade e id1 id2 s = Inr s'"
  shows "cards s' (nextId s) =
     \<lparr>power_stat = (power_stat (cards s id1) + power_stat (cards s id2)) div 2 + 10,
      defense = (defense (cards s id1) + defense (cards s id2)) div 2 + 5,
      speed = (speed (cards s id1) + speed (cards s id2)) div 2 + 5,
      rarity = (rarity (cards s id1) + rarity (cards s id2)) div 2 + 1\<rparr>"
proof -
  from assms obtain s1 s2 s4 ps ds vs rs where
    s1: "burn id1 s = Inr s1" and s2: "burn id2 s1 = Inr s2" and
    s4: "safeMint e (msg_sender e) (nextId s2) (s2\<lparr>nextId := nextId s2 + 1\<rparr>) = Inr s4" and
    ps: "add_chk (power_stat (cards s4 id1)) (power_stat (cards s4 id2)) = Inr ps" and
    ds: "add_chk (defense (cards s4 id1)) (defense (cards s4 id2)) = Inr ds" and
    vs: "add_chk (speed (cards s4 id1)) (speed (cards s4 id2)) = Inr vs" and
    rs: "add_chk (rarity (cards s4 id1)) (rarity (cards s4 id2)) = Inr rs" and
    s': "s' = s4\<lparr>cards := (cards s4)(nextId s2 :=
            \<lparr>power_stat = ps div 2 + 10, defense = ds div 2 + 5, speed = vs div 2 + 5,
             rarity = rs div 2 + 1\<rparr>)\<rparr>"
    by (rule upgradeE) blast
  have n2: "nextId s2 = nextId s" and c4: "cards s4 = cards s"
    using s1 s2 s4 by (simp_all add: burn_Inr safeMint_Inr update_fields)
  show ?thesis
    using ps ds vs rs by (simp add: s' n2 c4 add_chk_Inr)
qed

lemma battle_returns:
  assumes "battle H e card1 card2 s = Inr r"
  shows "r = round_winner (round_score (cards s card1) + unat (derive_battle H e) mod 10)
               (round_score (cards s card2) + (10 - unat (derive_battle H e) mod 10))"
proof -
  from assms obtain a1 x1 a2 x2 y1 k y2 where
    a1: "add_chk (power_stat (cards s card1)) (defense (cards s card1) div 2) = Inr a1" and
    x1: "add_chk a1 (speed (cards s card1)) = Inr x1" and
    a2: "add_chk (power_stat (cards s card2)) (defense (cards s card2) div 2) = Inr a2" and
    x2: "add_chk a2 (speed (cards s card2)) = Inr x2" and
    y1: "add_chk x1 (derive_battle H e mod 10) = Inr y1" and
    k: "sub_chk 10 (derive_battle H e mod 10) = Inr k" and
    y2: "add_chk x2 k = Inr y2" and
    r: "r = (if y1 > y2 then ''Card 1 Wins!'' else if y2 > y1 then ''Card 2 Wins!'' else ''Draw!'')"
    by (auto simp: battle_def Let_def bindE_Inr split: if_splits)
  have t1: "unat y1 = round_score (cards s card1) + unat (derive_battle H e) mod 10"
    using unat_add_chk [OF a1] unat_add_chk [OF x1] unat_add_chk [OF y1]
    by (simp add: round_score_def unat_div unat_mod)
  have t2: "unat y2 = round_score (cards s card2) + (10 - unat (derive_battle H e) mod 10)"
    using unat_add_chk [OF a2] unat_add_chk [OF x2] unat_add_chk [OF y2] unat_10_sub [OF k]
    by (simp add: round_score_def unat_div)
  show ?thesis
    unfolding r round_winner_def word_less_nat_alt t1 t2 by simp
qed

lemma battle_succeeds:
  assumes o: "owners s card1 \<noteq> 0" "owners s card2 \<noteq> 0"
    and f1: "round_score (cards s card1) + unat (derive_battle H e) mod 10 < 2 ^ 256"
    and f2: "round_score (cards s card2) + (10 - unat (derive_battle H e) mod 10) < 2 ^ 256"
  shows "\<exists>r. battle H e card1 card2 s = Inr r"
proof -
  define c1 c2 rand where "c1 = cards s card1" and "c2 = cards s card2"
    and "rand = derive_battle H e mod 10"
  have ur: "unat rand = unat (derive_battle H e) mod 10"
    by (simp add: rand_def unat_mod)
  have le: "unat rand \<le> unat (10 :: u256)"
    by (simp add: ur)
  have uk: "unat (10 - rand) = 10 - unat rand"
    using le by (simp add: unat_sub word_le_nat_alt)
  have k: "sub_chk 10 rand = Inr (10 - rand)"
    using le by (simp add: sub_chk_def)
  have g1: "round_score c1 + unat rand < 2 ^ 256"
    using f1 by (simp add: c1_def ur)
  have g2: "round_score c2 + unat (10 - rand) < 2 ^ 256"
    using f2 by (simp add: c2_def ur uk)
  have b: "both_valid s card1 card2 = Inr True"
    using o by (simp add: both_valid_Inr)
  have a1: "add_chk (power_stat c1) (defense c1 div 2) = Inr (power_stat c1 + defense c1 div 2)"
    and u1: "unat (power_stat c1 + defense c1 div 2) = unat (power_stat c1) + unat (defense c1) div 2"
    using g1 by (simp_all add: add_chk_fits round_score_def unat_div)
  have x1: "add_chk (power_stat c1 + defense c1 div 2) (speed c1)
      = Inr (power_stat c1 + defense c1 div 2 + speed c1)"
    and v1: "unat (power_stat c1 + defense c1 div 2 + speed c1) = round_score c1"
    using g1 by (simp_all add: add_chk_fits round_score_def u1)
  have y1: "add_chk (power_stat c1 + defense c1 div 2 + speed c1) rand
      = Inr (power_stat c1 + defense c1 div 2 + speed c1 + rand)"
    using g1 by (simp add: add_chk_fits v1)
  have a2: "add_chk (power_stat c2) (defense c2 div 2) = Inr (power_stat c2 + defense c2 div 2)"
    and u2: "unat (power_stat c2 + defense c2 div 2) = unat (power_stat c2) + unat (defense c2) div 2"
    using g2 by (simp_all add: add_chk_fits round_score_def unat_div)
  have x2: "add_chk (power_stat c2 + defense c2 div 2) (speed c2)
      = Inr (power_stat c2 + defense c2 div 2 + speed c2)"
    and v2: "unat (power_stat c2 + defense c2 div 2 + speed c2) = round_score c2"
    using g2 by (simp_all add: add_chk_fits round_score_def u2)
  have y2: "add_chk (power_stat c2 + defense c2 div 2 + speed c2) (10 - rand)
      = Inr (power_stat c2 + defense c2 div 2 + speed c2 + (10 - rand))"
    using g2 by (simp add: add_chk_fits v2)
  show ?thesis
    using b a1 x1 y1 k a2 x2 y2
    by (simp add: battle_def Let_def flip: c1_def c2_def rand_def)
qed

subsection \<open>Calls with receivers that call back\<close>

lemma run_calls_Done: "run_calls H ts Done = (\<lambda>t. t)"
  by (rule ext) simp

lemma safeMint_re_id: "safeMint_re (\<lambda>t. t) = safeMint"
  by (intro ext) (simp add: safeMint_re_def safeMint_def)

lemma mintCard_re_id: "mintCard_re (\<lambda>t. t) H e s = mintCard H e s"
  unfolding mintCard_re_def mintCard_def safeMint_re_id ..

lemma upgrade_re_id: "upgrade_re (\<lambda>t. t) e a b s = upgrade e a b s"
  unfolding upgrade_re_def upgrade_def safeMint_re_id ..

lemma exec_re_id: "exec_re (\<lambda>t. t) H e c s = exec H e c s"
  unfolding exec_re_def exec_def mintCard_re_id upgrade_re_id ..

lemma safeMint_re_Inr:
  "safeMint_re hook e t i s = Inr s' \<longleftrightarrow>
     t \<noteq> 0 \<and> owners s i = 0 \<and> onERC721Received e t i \<and> s' = hook (snd (update t i s))"
  by (auto simp: safeMint_re_def bindE_Inr mint_Inr)

lemma at_hook_fields:
  "nextId (at_hook a s) = nextId s + 1"
  "owners (at_hook a s) = (owners s)(nextId s := a)"
  "events (at_hook a s) = events s @ [Transfer (owners s (nextId s)) a (nextId s)]"
  "cards (at_hook a s) = cards s"
  by (simp_all add: at_hook_def update_fields)

lemma mintCard_re_Inr:
  "mintCard_re hook H e s = Inr s' \<longleftrightarrow>
     unat (nextId s) + 1 < 2 ^ 256 \<and> msg_sender e \<noteq> 0 \<and> owners s (nextId s) = 0 \<and>
     onERC721Received e (msg_sender e) (nextId s) \<and>
     s' = (hook (at_hook (msg_sender e) s))
            \<lparr>cards := (cards (hook (at_hook (msg_sender e) s)))(nextId s :=
               \<lparr>power_stat = derive_mint H e (nextId s) mod 50 + 50,
                defense = derive_mint H e (nextId s) mod 40 + 30,
                speed = derive_mint H e (nextId s) mod 20 + 10,
                rarity = ucast (derive_mint H e (nextId s) mod 5 + 1)\<rparr>)\<rparr>"
  by (auto simp: mintCard_re_def Let_def bindE_Inr add_chk_Inr [where b = 1] mod_attr
      safeMint_re_Inr at_hook_def)

text \<open>
  The card that a mint stores and the failure of \<open>upgrade\<close> for a caller who does
  not own both inputs do not depend on what the receiver does.
\<close>

lemma mintCard_re_card:
  assumes "mintCard_re hook H e s = Inr s'"
  shows "cards s' (nextId s) =
     \<lparr>power_stat = derive_mint H e (nextId s) mod 50 + 50,
      defense = derive_mint H e (nextId s) mod 40 + 30,
      speed = derive_mint H e (nextId s) mod 20 + 10,
      rarity = ucast (derive_mint H e (nextId s) mod 5 + 1)\<rparr>"
  using assms by (simp add: mintCard_re_Inr)

lemma upgrade_re_not_owner:
  assumes "\<not> (owners s id1 = msg_sender e \<and> owners s id2 = msg_sender e)"
  shows "upgrade_re hook e id1 id2 s = upgrade e id1 id2 s"
  using assms by (simp add: upgrade_re_def upgrade_def owns_both_def ownerOf_def)

lemma upgrade_reE:
  assumes "upgrade_re hook e id1 id2 s = Inr s'"
  obtains s2 c where
    "owners s id1 = msg_sender e" "owners s id2 = msg_sender e" "msg_sender e \<noteq> 0"
    "s2 = snd (update 0 id2 (snd (update 0 id1 s)))"
    "owners (snd (update 0 id1 s)) id2 \<noteq> 0"
    "unat (nextId s2) + 1 < 2 ^ 256" "owners s2 (nextId s2) = 0"
    "s' = (hook (at_hook (msg_sender e) s2))
             \<lparr>cards := (cards (hook (at_hook (msg_sender e) s2)))(nextId s2 := c)\<rparr>"
proof -
  from assms obtain ok where ok: "owns_both e s id1 id2 = Inr ok" and ok': ok
    by (auto simp: upgrade_re_def bindE_Inr split: if_splits)
  then have o: "owners s id1 = msg_sender e" "owners s id2 = msg_sender e" "msg_sender e \<noteq> 0"
    by (auto simp: owns_both_Inr split: if_splits)
  from assms ok ok' obtain s1 where s1: "burn id1 s = Inr s1"
    by (auto simp: upgrade_re_def bindE_Inr)
  from assms ok ok' s1 obtain s2 where s2: "burn id2 s1 = Inr s2"
    by (auto simp: upgrade_re_def bindE_Inr)
  from assms ok ok' s1 s2 have n: "unat (nextId s2) + 1 < 2 ^ 256"
    by (auto simp: upgrade_re_def bindE_Inr add_chk_Inr [where b = 1])
  then have n': "add_chk (nextId s2) 1 = Inr (nextId s2 + 1)"
    by (simp add: add_chk_Inr)
  from assms ok ok' s1 s2 n' obtain s4 where
    s4: "safeMint_re hook e (msg_sender e) (nextId s2) (s2\<lparr>nextId := nextId s2 + 1\<rparr>) = Inr s4"
    by (auto simp: upgrade_re_def bindE_Inr Let_def)
  from assms ok ok' s1 s2 n' s4 obtain c where
    s': "s' = s4\<lparr>cards := (cards s4)(nextId s2 := c)\<rparr>"
    by (auto simp: upgrade_re_def bindE_Inr Let_def)
  have e1: "s1 = snd (update 0 id1 s)"
    using s1 by (simp add: burn_Inr)
  have e2: "s2 = snd (update 0 id2 s1)" and o2: "owners s1 id2 \<noteq> 0"
    using s2 by (simp_all add: burn_Inr)
  have e4: "s4 = hook (at_hook (msg_sender e) s2)" and o4: "owners s2 (nextId s2) = 0"
    using s4 by (simp_all add: safeMint_re_Inr at_hook_def)
  show thesis
    using o e2 [unfolded e1] o2 [unfolded e1] n o4 s' [unfolded e4] by (rule that)
qed

subsection \<open>The ids handed out\<close>

lemma extends_refl: "extends s s"
  by (simp add: extends_def)

lemma extends_trans:
  assumes "extends s t" and "extends t u"
  shows "extends s u"
proof -
  have "[unat (nextId s)..<unat (nextId t)] @ [unat (nextId t)..<unat (nextId u)]
      = [unat (nextId s)..<unat (nextId u)]"
    using assms upt_add_eq_append [of "unat (nextId s)" "unat (nextId t)"
        "unat (nextId u) - unat (nextId t)"]
    by (simp add: extends_def)
  then show ?thesis
    using assms by (auto simp: extends_def)
qed

lemma at_hook_extends:
  assumes "owners s (nextId s) = 0" and "unat (nextId s) + 1 < 2 ^ 256"
  shows "extends s (at_hook a s)"
  using assms less_succ(3) [OF assms(2)]
  by (simp add: extends_def at_hook_fields minted_ids_def)

lemma burn_extends:
  assumes "owners s i \<noteq> 0"
  shows "extends s (snd (update 0 i s))"
  using assms by (simp add: extends_def update_fields minted_ids_def)

lemma extends_cards: "extends s (t\<lparr>cards := c\<rparr>) = extends s t"
  by (simp add: extends_def minted_ids_def)

lemma at_hook_owned:
  assumes "owned_below s" and "unat (nextId s) + 1 < 2 ^ 256"
  shows "owned_below (at_hook a s)"
  using assms(1) less_succ(1,2) [OF assms(2)]
  by (auto simp: owned_below_def at_hook_fields)

lemma burn_owned:
  assumes "owned_below s"
  shows "owned_below (snd (update 0 i s))"
  using assms by (simp add: owned_below_def update_fields)

lemma owned_cards: "owned_below (t\<lparr>cards := c\<rparr>) = owned_below t"
  by (simp add: owned_below_def)

lemma extends_prefix:
  assumes "extends t u" and "events t = es"
  shows "prefix es (events u)"
  using assms by (simp add: extends_def)

lemma extends_less:
  assumes "extends t u" and "unat (nextId s) < unat (nextId t)"
  shows "unat (nextId s) < unat (nextId u)"
  using assms by (simp add: extends_def)

lemma mintCard_re_extends:
  assumes hook: "\<And>t. extends t (hook t)" and m: "mintCard_re hook H e s = Inr s'"
  shows "extends s s'"
    and "prefix (events s @ [Transfer 0 (msg_sender e) (nextId s)]) (events s')"
    and "unat (nextId s) < unat (nextId s')"
proof -
  define t where "t = at_hook (msg_sender e) s"
  from m have n: "unat (nextId s) + 1 < 2 ^ 256" and o: "owners s (nextId s) = 0"
    and s': "s' = (hook t)\<lparr>cards := (cards (hook t))(nextId s :=
               \<lparr>power_stat = derive_mint H e (nextId s) mod 50 + 50,
                defense = derive_mint H e (nextId s) mod 40 + 30,
                speed = derive_mint H e (nextId s) mod 20 + 10,
                rarity = ucast (derive_mint H e (nextId s) mod 5 + 1)\<rparr>)\<rparr>"
    by (simp_all add: mintCard_re_Inr t_def)
  have st: "extends s t"
    unfolding t_def using o n by (rule at_hook_extends)
  have et: "events t = events s @ [Transfer 0 (msg_sender e) (nextId s)]"
    by (simp add: t_def at_hook_fields o)
  have nt: "unat (nextId s) < unat (nextId t)"
    using less_succ(3) [OF n] by (simp add: t_def at_hook_fields)
  show "extends s s'"
    unfolding s' extends_cards using st hook by (rule extends_trans)
  show "prefix (events s @ [Transfer 0 (msg_sender e) (nextId s)]) (events s')"
    using extends_prefix [OF hook et] by (simp add: s')
  show "unat (nextId s) < unat (nextId s')"
    using extends_less [OF hook nt] by (simp add: s')
qed

lemma mintCard_re_owned:
  assumes hook: "\<And>t. owned_below t \<Longrightarrow> owned_below (hook t)"
    and m: "mintCard_re hook H e s = Inr s'" and ok: "owned_below s"
  shows "owned_below s'"
proof -
  from m have n: "unat (nextId s) + 1 < 2 ^ 256"
    and s': "\<exists>c. s' = (hook (at_hook (msg_sender e) s))\<lparr>cards := c\<rparr>"
    by (auto simp: mintCard_re_Inr)
  have "owned_below (hook (at_hook (msg_sender e) s))"
    using ok n by (intro hook at_hook_owned)
  then show ?thesis
    using s' by (auto simp: owned_cards)
qed

lemma upgrade_re_extends:
  assumes hook: "\<And>t. extends t (hook t)" and u: "upgrade_re hook e id1 id2 s = Inr s'"
  shows "extends s s'"
    and "prefix (events s @ [Transfer (msg_sender e) 0 id1, Transfer (msg_sender e) 0 id2,
                             Transfer 0 (msg_sender e) (nextId s)]) (events s')"
    and "unat (nextId s) < unat (nextId s')"
proof -
  from u obtain s2 c where
    o: "owners s id1 = msg_sender e" "owners s id2 = msg_sender e" "msg_sender e \<noteq> 0" and
    s2: "s2 = snd (update 0 id2 (snd (update 0 id1 s)))" and
    o2: "owners (snd (update 0 id1 s)) id2 \<noteq> 0" and
    n: "unat (nextId s2) + 1 < 2 ^ 256" and o4: "owners s2 (nextId s2) = 0" and
    s': "s' = (hook (at_hook (msg_sender e) s2))
             \<lparr>cards := (cards (hook (at_hook (msg_sender e) s2)))(nextId s2 := c)\<rparr>"
    by (rule upgrade_reE)
  define t where "t = at_hook (msg_sender e) s2"
  have n2: "nextId s2 = nextId s"
    by (simp add: s2 update_fields)
  have "extends s (snd (update 0 id1 s))"
    using o by (intro burn_extends) simp
  moreover have "extends (snd (update 0 id1 s)) s2"
    unfolding s2 using o2 by (rule burn_extends)
  moreover have "extends s2 t"
    unfolding t_def using o4 n by (rule at_hook_extends)
  ultimately have st: "extends s t"
    by (blast intro: extends_trans)
  have et: "events t = events s @ [Transfer (msg_sender e) 0 id1, Transfer (msg_sender e) 0 id2,
                             Transfer 0 (msg_sender e) (nextId s)]"
  proof -
    have "id2 \<noteq> id1"
      using o2 by (auto simp: update_fields)
    then have "events s2 = events s @ [Transfer (msg_sender e) 0 id1, Transfer (msg_sender e) 0 id2]"
      by (simp add: s2 update_fields o)
    then show ?thesis
      using o4 by (simp add: t_def at_hook_fields n2)
  qed
  have nt: "unat (nextId s) < unat (nextId t)"
    using less_succ(3) [OF n] by (simp add: t_def at_hook_fields n2)
  show "extends s s'"
    unfolding s' extends_cards t_def [symmetric] using st hook by (rule extends_trans)
  show "prefix (events s @ [Transfer (msg_sender e) 0 id1, Transfer (msg_sender e) 0 id2,
                             Transfer 0 (msg_sender e) (nextId s)]) (events s')"
    using extends_prefix [OF hook et] by (simp add: s' t_def)
  show "unat (nextId s) < unat (nextId s')"
    using extends_less [OF hook nt] by (simp add: s' t_def)
qed

lemma upgrade_re_owned:
  assumes hook: "\<And>t. owned_below t \<Longrightarrow> owned_below (hook t)"
    and u: "upgrade_re hook e id1 id2 s = Inr s'" and ok: "owned_below s"
  shows "owned_below s'"
proof -
  from u obtain s2 c where
    s2: "s2 = snd (update 0 id2 (snd (update 0 id1 s)))" and
    n: "unat (nextId s2) + 1 < 2 ^ 256" and
    s': "s' = (hook (at_hook (msg_sender e) s2))
             \<lparr>cards := (cards (hook (at_hook (msg_sender e) s2)))(nextId s2 := c)\<rparr>"
    by (rule upgrade_reE)
  have "owned_below s2"
    unfolding s2 using ok by (intro burn_owned)
  then have "owned_below (hook (at_hook (msg_sender e) s2))"
    using n by (intro hook at_hook_owned)
  then show ?thesis
    by (simp add: s' owned_cards)
qed

lemma upgrade_re_inputs:
  assumes "upgrade_re hook e id1 id2 s = Inr s'" and "owned_below s"
  shows "id1 < nextId s" and "id2 < nextId s"
proof -
  from assms(1) have "owners s id1 \<noteq> 0" "owners s id2 \<noteq> 0"
    by (auto elim!: upgrade_reE)
  then show "id1 < nextId s" and "id2 < nextId s"
    using assms(2) by (simp_all add: owned_below_def)
qed

lemma exec_re_extends:
  assumes "\<And>t. extends t (hook t)"
  shows "extends s (snd (exec_re hook H e c s))"
  using assms
  by (cases c)
     (auto simp: exec_re_def extends_refl split: sum.splits
           intro: mintCard_re_extends(1) upgrade_re_extends(1))

lemma exec_re_owned:
  assumes "\<And>t. owned_below t \<Longrightarrow> owned_below (hook t)" and "owned_below s"
  shows "owned_below (snd (exec_re hook H e c s))"
  using assms
  by (cases c)
     (auto simp: exec_re_def split: sum.splits intro: mintCard_re_owned upgrade_re_owned)

lemma run_calls_extends: "extends s (run_calls H ts cs s)"
proof (induction H ts cs s rule: run_calls.induct)
  case (1 H ts s)
  show ?case by (simp add: extends_refl)
next
  case (2 H ts a ok c nested rest s)
  have "extends s (snd (exec_re (\<lambda>t. run_calls H ts nested t) H (call_env ts a ok) c s))"
    by (rule exec_re_extends) (rule "2.IH"(1))
  then show ?case
    using "2.IH"(2) by (auto intro: extends_trans)
qed

lemma run_calls_owned: "owned_below s \<Longrightarrow> owned_below (run_calls H ts cs s)"
proof (induction H ts cs s rule: run_calls.induct)
  case (1 H ts s)
  then show ?case by simp
next
  case (2 H ts a ok c nested rest s)
  have "owned_below (snd (exec_re (\<lambda>t. run_calls H ts nested t) H (call_env ts a ok) c s))"
    using "2.prems" by (intro exec_re_owned "2.IH"(1))
  then show ?case
    using "2.IH"(2) by simp
qed

lemma run_txs_extends: "extends s (run_txs H txs s)"
proof (induction txs arbitrary: s)
  case Nil
  show ?case by (simp add: extends_refl)
next
  case (Cons tx txs)
  obtain ts cs where tx: "tx = (ts, cs)"
    by (cases tx)
  show ?case
    using run_calls_extends [of s H ts cs] Cons.IH [of "run_calls H ts cs s"]
    by (auto simp: tx intro: extends_trans)
qed

lemma run_txs_owned: "owned_below s \<Longrightarrow> owned_below (run_txs H txs s)"
proof (induction txs arbitrary: s)
  case Nil
  then show ?case by simp
next
  case (Cons tx txs)
  obtain ts cs where tx: "tx = (ts, cs)"
    by (cases tx)
  show ?case
    using Cons.prems by (simp add: tx Cons.IH run_calls_owned)
qed

lemma minted_from_init:
  "map unat (minted_ids (run_txs H txs init_state)) = [1..<unat (nextId (run_txs H txs init_state))]"
  using run_txs_extends [of init_state H txs]
  by (simp add: extends_def) (simp add: init_state_def minted_ids_def)

lemma increasing_of_unat:
  fixes xs :: "u256 list"
  assumes "map unat xs = [m..<n]"
  shows "sorted_wrt (<) xs" and "distinct xs"
proof -
  have "sorted_wrt (<) (map unat xs)" "distinct (map unat xs)"
    by (simp_all add: assms)
  then show "sorted_wrt (<) xs" and "distinct xs"
    by (simp_all add: sorted_wrt_map distinct_map flip: word_less_nat_alt)
qed

lemma run_append: "run H (xs @ ys) s = run H ys (run H xs s)"
  by (induction xs arbitrary: s) (simp_all add: split_paired_all)

subsection \<open>Evaluation on the concrete states\<close>

lemma alice_nonzero: "alice \<noteq> 0"
  by (simp add: alice_def)

lemma mint_once: "mintCard (\<lambda>_. 4) demo_env init_state = Inr minted_once"
  by (simp add: mintCard_Inr init_state_def demo_env_def minted_once_def rare_card_def
      update_def Let_def alice_nonzero derive_mint_def)

lemma mint_twice: "mintCard (\<lambda>_. 4) demo_env minted_once = Inr minted_twice"
  by (simp add: mintCard_Inr demo_env_def minted_once_def minted_twice_def rare_card_def
      update_def Let_def alice_nonzero derive_mint_def)

lemma mint_picky: "mintCard (\<lambda>_. 4) picky_env init_state = Inr minted_once"
  by (simp add: mintCard_Inr init_state_def picky_env_def minted_once_def rare_card_def
      update_def Let_def alice_nonzero derive_mint_def)

lemma run_demo: "run (\<lambda>_. 4) [(demo_env, MintCard), (demo_env, MintCard)] init_state = minted_twice"
  by (simp add: exec_def mint_once mint_twice)

lemma battle_demo: "battle (\<lambda>_. 4) demo_env 1 2 minted_twice = Inr ''Card 2 Wins!''"
  by (simp add: battle_def both_valid_def ownerOf_def minted_twice_def rare_card_def
      alice_nonzero derive_battle_def add_chk_def sub_chk_def Let_def)

lemma battle_draw_demo: "battle (\<lambda>_. 5) demo_env 1 2 minted_twice = Inr ''Draw!''"
  by (simp add: battle_def both_valid_def ownerOf_def minted_twice_def rare_card_def
      alice_nonzero derive_battle_def add_chk_def sub_chk_def Let_def)

lemma upgrade_demo: "upgrade demo_env 1 2 minted_twice = Inr fused"
  by (simp add: upgrade_def owns_both_def ownerOf_def burn_def safeMint_def mint_def update_def
      minted_twice_def fused_def fused_card_def rare_card_def demo_env_def
      alice_nonzero add_chk_def Let_def fun_eq_iff)

lemma upgrade_pair: "upgrade demo_env 1 2 pair_state = Inr pair_fused"
  by (simp add: upgrade_def owns_both_def ownerOf_def burn_def safeMint_def mint_def update_def
      pair_state_def pair_fused_def demo_env_def
      alice_nonzero add_chk_def Let_def fun_eq_iff)

lemma call_env_demo: "call_env 1700000000 alice True = demo_env"
  by (simp add: call_env_def demo_env_def)

lemma mint_reentered:
  "mintCard_re (run_calls (\<lambda>_. 4) 1700000000 (Call alice True (Upgrade 1 2) Done Done))
     (\<lambda>_. 4) demo_env minted_once = Inr reentered"
  by (simp add: mintCard_re_Inr at_hook_def exec_re_def call_env_demo
      upgrade_re_def owns_both_def ownerOf_def burn_def safeMint_re_def mint_def update_def
      minted_once_def reentered_def odd_card_def rare_card_def zero_card_def demo_env_def
      alice_nonzero add_chk_def derive_mint_def Let_def fun_eq_iff)

lemma upgrade_re_demo:
  "upgrade_re (run_calls (\<lambda>_. 4) 1700000000 Done) demo_env 1 2 minted_twice = Inr fused"
  using upgrade_demo by (simp add: run_calls_Done upgrade_re_id)

lemma run_txs_demo:
  "run_txs (\<lambda>_. 4)
     [(1700000000, Call alice True MintCard Done Done),
      (1700000000, Call alice True MintCard Done Done)] init_state = minted_twice"
  by (simp add: run_calls_Done exec_re_id call_env_demo exec_def mint_once mint_twice)

lemma run_txs_reentered:
  "run_txs (\<lambda>_. 4)
     [(1700000000, Call alice True MintCard Done Done),
      (1700000000, Call alice True MintCard (Call alice True (Upgrade 1 2) Done Done) Done)]
     init_state = reentered"
proof -
  have "run_calls (\<lambda>_. 4) 1700000000 (Call alice True MintCard Done Done) init_state
      = minted_once"
    by (simp add: run_calls_Done exec_re_id call_env_demo exec_def mint_once)
  moreover have "run_calls (\<lambda>_. 4) 1700000000
      (Call alice True MintCard (Call alice True (Upgrade 1 2) Done Done) Done) minted_once
      = reentered"
    using mint_reentered by (simp add: exec_re_def [of _ _ _ MintCard] call_env_demo)
  ultimately show ?thesis
    by simp
qed

section \<open>The claims\<close>

text \<open>
  C1: with \<open>rand\<close> the draw reduced modulo 10 (so \<open>rand\<close> is in [0,9]), \<open>battle\<close>
  compares \<open>power1 + defense1 div 2 + speed1 + rand\<close> with
  \<open>power2 + defense2 div 2 + speed2 + (10 - rand)\<close>, both from the one draw; the
  strictly larger total wins and equal totals are a draw. Whenever \<open>battle\<close> returns,
  it returns that decision, and it returns whenever both tokens have an owner and
  the two totals fit into 256 bits.
\<close>

theorem battle_result:
  "unat (derive_battle H e) mod 10 \<le> 9 \<and>
   (battle H e card1 card2 s = Inr r \<longrightarrow>
      r = round_winner (round_score (cards s card1) + unat (derive_battle H e) mod 10)
            (round_score (cards s card2) + (10 - unat (derive_battle H e) mod 10))) \<and>
   (owners s card1 \<noteq> 0 \<and> owners s card2 \<noteq> 0 \<and>
    round_score (cards s card1) + unat (derive_battle H e) mod 10 < 2 ^ 256 \<and>
    round_score (cards s card2) + (10 - unat (derive_battle H e) mod 10) < 2 ^ 256 \<longrightarrow>
      battle H e card1 card2 s =
        Inr (round_winner (round_score (cards s card1) + unat (derive_battle H e) mod 10)
              (round_score (cards s card2) + (10 - unat (derive_battle H e) mod 10))))"
proof (intro conjI impI)
  show "unat (derive_battle H e) mod 10 \<le> 9"
    by arith
next
  assume "battle H e card1 card2 s = Inr r"
  then show "r = round_winner (round_score (cards s card1) + unat (derive_battle H e) mod 10)
            (round_score (cards s card2) + (10 - unat (derive_battle H e) mod 10))"
    by (rule battle_returns)
next
  assume a: "owners s card1 \<noteq> 0 \<and> owners s card2 \<noteq> 0 \<and>
    round_score (cards s card1) + unat (derive_battle H e) mod 10 < 2 ^ 256 \<and>
    round_score (cards s card2) + (10 - unat (derive_battle H e) mod 10) < 2 ^ 256"
  then obtain r where r: "battle H e card1 card2 s = Inr r"
    using battle_succeeds [of s card1 card2 H e] by blast
  then show "battle H e card1 card2 s =
        Inr (round_winner (round_score (cards s card1) + unat (derive_battle H e) mod 10)
              (round_score (cards s card2) + (10 - unat (derive_battle H e) mod 10)))"
    using battle_returns [OF r] by simp
qed

theorem battle_result_witness:
  "unat (derive_battle (\<lambda>_. 4) demo_env) mod 10 \<le> 9 \<and>
   battle (\<lambda>_. 4) demo_env 1 2 minted_twice = Inr ''Card 2 Wins!'' \<and>
   owners minted_twice 1 \<noteq> 0 \<and> owners minted_twice 2 \<noteq> 0 \<and>
   round_score (cards minted_twice 1) + unat (derive_battle (\<lambda>_. 4) demo_env) mod 10 = 89 \<and>
   round_score (cards minted_twice 2) + (10 - unat (derive_battle (\<lambda>_. 4) demo_env) mod 10) = 91 \<and>
   round_winner 89 91 = ''Card 2 Wins!''"
proof -
  have v: "round_score (cards minted_twice 1) + unat (derive_battle (\<lambda>_. 4) demo_env) mod 10 = 89"
    "round_score (cards minted_twice 2) + (10 - unat (derive_battle (\<lambda>_. 4) demo_env) mod 10) = 91"
    by (simp_all add: round_score_def minted_twice_def rare_card_def derive_battle_def)
  have o: "owners minted_twice 1 \<noteq> 0" "owners minted_twice 2 \<noteq> 0"
    by (simp_all add: minted_twice_def alice_nonzero)
  show ?thesis
    using battle_result [of "\<lambda>_. 4" demo_env 1 2 minted_twice "''Card 2 Wins!''"]
      battle_demo o
    unfolding v by simp
qed

text \<open>
  C2: every card that \<open>mintCard\<close> creates, whatever the hash returns, has power in
  [50,99], defense in [30,69], speed in [10,29] and rarity in [1,5].
\<close>

theorem mintCard_stat_bounds:
  assumes "mintCard H e s = Inr s'"
  shows "unat (power_stat (cards s' (nextId s))) \<in> {50..99} \<and>
         unat (defense (cards s' (nextId s))) \<in> {30..69} \<and>
         unat (speed (cards s' (nextId s))) \<in> {10..29} \<and>
         unat (rarity (cards s' (nextId s))) \<in> {1..5}"
proof -
  have b: "m mod 50 \<le> 49" "m mod 40 \<le> 39" "m mod 20 \<le> 19" "m mod 5 \<le> 4" for m :: nat
    by arith+
  show ?thesis
    unfolding mintCard_card [OF assms]
    by (simp add: unat_attr unat_rarity b)
qed

theorem mintCard_stat_bounds_witness:
  "mintCard (\<lambda>_. 4) demo_env init_state = Inr minted_once \<and>
   unat (power_stat (cards minted_once (nextId init_state))) \<in> {50..99} \<and>
   unat (defense (cards minted_once (nextId init_state))) \<in> {30..69} \<and>
   unat (speed (cards minted_once (nextId init_state))) \<in> {10..29} \<and>
   unat (rarity (cards minted_once (nextId init_state))) \<in> {1..5}"
  using mintCard_stat_bounds [OF mint_once] mint_once by simp

text \<open>
  C3: after a successful \<open>upgrade\<close> of \<open>id1\<close> and \<open>id2\<close> the new card has power
  \<open>(p1 + p2) div 2 + 10\<close>, defense \<open>(d1 + d2) div 2 + 5\<close> and speed
  \<open>(v1 + v2) div 2 + 5\<close>, the divisions truncating; fusing the cards (60,40,20,2) and
  (80,50,25,4) gives (80,50,27,4).
\<close>

theorem upgrade_stats:
  assumes "upgrade e id1 id2 s = Inr s'"
  shows "unat (power_stat (cards s' (nextId s))) =
           (unat (power_stat (cards s id1)) + unat (power_stat (cards s id2))) div 2 + 10 \<and>
         unat (defense (cards s' (nextId s))) =
           (unat (defense (cards s id1)) + unat (defense (cards s id2))) div 2 + 5 \<and>
         unat (speed (cards s' (nextId s))) =
           (unat (speed (cards s id1)) + unat (speed (cards s id2))) div 2 + 5 \<and>
         (cards s id1 = \<lparr>power_stat = 60, defense = 40, speed = 20, rarity = 2\<rparr> \<and>
          cards s id2 = \<lparr>power_stat = 80, defense = 50, speed = 25, rarity = 4\<rparr> \<longrightarrow>
          cards s' (nextId s) = \<lparr>power_stat = 80, defense = 50, speed = 27, rarity = 4\<rparr>)"
proof (intro conjI impI)
  assume "cards s id1 = \<lparr>power_stat = 60, defense = 40, speed = 20, rarity = 2\<rparr> \<and>
          cards s id2 = \<lparr>power_stat = 80, defense = 50, speed = 25, rarity = 4\<rparr>"
  then show "cards s' (nextId s) = \<lparr>power_stat = 80, defense = 50, speed = 27, rarity = 4\<rparr>"
    by (simp add: upgrade_card_word [OF assms])
qed (rule upgrade_new_card [OF assms])+

theorem upgrade_stats_witness:
  "upgrade demo_env 1 2 pair_state = Inr pair_fused \<and>
   unat (power_stat (cards pair_fused (nextId pair_state))) =
     (unat (power_stat (cards pair_state 1)) + unat (power_stat (cards pair_state 2))) div 2 + 10 \<and>
   unat (defense (cards pair_fused (nextId pair_state))) =
     (unat (defense (cards pair_state 1)) + unat (defense (cards pair_state 2))) div 2 + 5 \<and>
   unat (speed (cards pair_fused (nextId pair_state))) =
     (unat (speed (cards pair_state 1)) + unat (speed (cards pair_state 2))) div 2 + 5 \<and>
   cards pair_state 1 = \<lparr>power_stat = 60, defense = 40, speed = 20, rarity = 2\<rparr> \<and>
   cards pair_state 2 = \<lparr>power_stat = 80, defense = 50, speed = 25, rarity = 4\<rparr> \<and>
   cards pair_fused (nextId pair_state) =
     \<lparr>power_stat = 80, defense = 50, speed = 27, rarity = 4\<rparr>"
proof -
  have c: "cards pair_state 1 = \<lparr>power_stat = 60, defense = 40, speed = 20, rarity = 2\<rparr> \<and>
           cards pair_state 2 = \<lparr>power_stat = 80, defense = 50, speed = 25, rarity = 4\<rparr>"
    by (simp add: pair_state_def)
  show ?thesis
    using upgrade_stats [OF upgrade_pair] upgrade_pair c by blast
qed

text \<open>
  C4: the rarity of a fused card is not capped at 5. Two calls of \<open>mintCard\<close> on the
  fresh contract with a hash that returns 4 give two cards of rarity 5, and
  \<open>upgrade\<close> of the two stores a card of rarity \<open>(5 + 5) div 2 + 1 = 6\<close>.
\<close>

theorem upgrade_rarity_exceeds_five:
  "run (\<lambda>_. 4) [(demo_env, MintCard), (demo_env, MintCard)] init_state = minted_twice \<and>
   rarity (cards minted_twice 1) = 5 \<and> rarity (cards minted_twice 2) = 5 \<and>
   upgrade demo_env 1 2 minted_twice = Inr fused \<and>
   rarity (cards fused (nextId minted_twice)) = 6"
proof -
  have "rarity (cards minted_twice 1) = 5" "rarity (cards minted_twice 2) = 5"
    "rarity (cards fused (nextId minted_twice)) = 6"
    by (simp_all add: minted_twice_def fused_def rare_card_def fused_card_def)
  then show ?thesis
    using run_demo upgrade_demo by blast
qed

text \<open>
  C5: \<open>getCard\<close> does not fail. On the fresh contract \<open>getCard 7\<close> returns the
  all-zero card, and after \<open>upgrade\<close> has burned tokens 1 and 2 (so that \<open>ownerOf\<close>
  reverts for them) \<open>getCard\<close> still returns their statistics.
\<close>

theorem getCard_never_reverts:
  "getCard init_state 7 = Inr zero_card \<and>
   upgrade demo_env 1 2 minted_twice = Inr fused \<and>
   ownerOf fused 1 = Inl (ERC721NonexistentToken 1) \<and>
   ownerOf fused 2 = Inl (ERC721NonexistentToken 2) \<and>
   getCard fused 1 = Inr rare_card \<and> getCard fused 2 = Inr rare_card"
proof -
  have "getCard init_state 7 = Inr zero_card"
    "ownerOf fused 1 = Inl (ERC721NonexistentToken 1)"
    "ownerOf fused 2 = Inl (ERC721NonexistentToken 2)"
    "getCard fused 1 = Inr rare_card" "getCard fused 2 = Inr rare_card"
    by (simp_all add: getCard_def ownerOf_def init_state_def fused_def)
  then show ?thesis
    using upgrade_demo by blast
qed

text \<open>
  C6, as the claim states it: on the fresh contract the caller owns neither token 5
  nor token 6, and \<open>upgrade 5 6\<close> reverts with \<open>ERC721NonexistentToken\<close>, which is
  not the \<open>Not owner\<close> error.
\<close>

theorem upgrade_unminted_counterexample:
  "\<not> (owners init_state 5 = msg_sender demo_env \<and> owners init_state 6 = msg_sender demo_env) \<and>
   upgrade demo_env 5 6 init_state = Inl (ERC721NonexistentToken 5) \<and>
   upgrade demo_env 5 6 init_state \<noteq> Inl (Require ''Not owner'')"
  by (simp add: upgrade_def owns_both_def ownerOf_def init_state_def demo_env_def alice_nonzero)

text \<open>
  C6, amended: unless the caller owns both \<open>id1\<close> and \<open>id2\<close>, \<open>upgrade\<close> reverts,
  with \<open>ERC721NonexistentToken\<close> when the first of the two tokens that the caller
  does not own has no owner at all and with \<open>Not owner\<close> when it belongs to someone
  else; the reverted call leaves the whole storage as it was.
\<close>

theorem upgrade_not_owner:
  assumes "\<not> (owners s id1 = msg_sender e \<and> owners s id2 = msg_sender e)"
  shows "upgrade e id1 id2 s =
           Inl (if owners s id1 = 0 then ERC721NonexistentToken id1
                else if owners s id1 \<noteq> msg_sender e then Require ''Not owner''
                else if owners s id2 = 0 then ERC721NonexistentToken id2
                else Require ''Not owner'') \<and>
         snd (exec H e (Upgrade id1 id2) s) = s"
proof -
  have "upgrade e id1 id2 s =
           Inl (if owners s id1 = 0 then ERC721NonexistentToken id1
                else if owners s id1 \<noteq> msg_sender e then Require ''Not owner''
                else if owners s id2 = 0 then ERC721NonexistentToken id2
                else Require ''Not owner'')"
    using assms by (simp add: upgrade_def owns_both_def ownerOf_def)
  then show ?thesis
    by (simp add: exec_def)
qed

theorem upgrade_not_owner_witness:
  "\<not> (owners minted_twice 1 = msg_sender bob_env \<and> owners minted_twice 2 = msg_sender bob_env) \<and>
   upgrade bob_env 1 2 minted_twice = Inl (Require ''Not owner'') \<and>
   snd (exec (\<lambda>_. 4) bob_env (Upgrade 1 2) minted_twice) = minted_twice"
proof -
  have h: "\<not> (owners minted_twice 1 = msg_sender bob_env \<and>
              owners minted_twice 2 = msg_sender bob_env)"
    by (simp add: minted_twice_def bob_env_def alice_def bob_def)
  have o: "owners minted_twice 1 = alice" "alice \<noteq> bob" "msg_sender bob_env = bob"
    by (simp_all add: minted_twice_def bob_env_def alice_def bob_def)
  show ?thesis
    using upgrade_not_owner [OF h, of "\<lambda>_. 4"] h by (simp add: o alice_nonzero)
qed

text \<open>
  C7: a successful \<open>mintCard\<close> hands out the current \<open>nextId\<close>: the first event it
  adds is the mint of that id to the caller, and when the receiver is called the
  counter is one further; what the counter is afterwards is what the receiver's own
  calls made of it. The same holds for a successful \<open>upgrade\<close>, after the two burns.
  Over any call, with whatever calls its receiver makes in between, the counter
  grows and the ids handed out are exactly the values it went through, so the
  counter advances by one for each id. After any history from the fresh contract
  the ids handed out are 1, 2, ... up to the counter, strictly increasing and
  distinct, and both inputs of a successful \<open>upgrade\<close> are below the id it hands
  out, which is the counter at its start.
\<close>

theorem card_ids_increase:
  "(mintCard_re (run_calls H ts nested1) H e s1 = Inr s1' \<longrightarrow>
      prefix (events s1 @ [Transfer 0 (msg_sender e) (nextId s1)]) (events s1') \<and>
      unat (nextId (at_hook (msg_sender e) s1)) = unat (nextId s1) + 1 \<and>
      nextId s1' = nextId (run_calls H ts nested1 (at_hook (msg_sender e) s1)) \<and>
      unat (nextId s1) < unat (nextId s1') \<and>
      map unat (minted_ids s1') =
        map unat (minted_ids s1) @ [unat (nextId s1)..<unat (nextId s1')]) \<and>
   (upgrade_re (run_calls H ts nested2) e id1 id2 s2 = Inr s2' \<longrightarrow>
      prefix (events s2 @ [Transfer (msg_sender e) 0 id1, Transfer (msg_sender e) 0 id2,
                           Transfer 0 (msg_sender e) (nextId s2)]) (events s2') \<and>
      unat (nextId (at_hook (msg_sender e) (snd (update 0 id2 (snd (update 0 id1 s2))))))
        = unat (nextId s2) + 1 \<and>
      nextId s2' = nextId (run_calls H ts nested2
        (at_hook (msg_sender e) (snd (update 0 id2 (snd (update 0 id1 s2)))))) \<and>
      unat (nextId s2) < unat (nextId s2') \<and>
      map unat (minted_ids s2') =
        map unat (minted_ids s2) @ [unat (nextId s2)..<unat (nextId s2')]) \<and>
   map unat (minted_ids (run_txs H txs init_state))
     = [1..<unat (nextId (run_txs H txs init_state))] \<and>
   sorted_wrt (<) (minted_ids (run_txs H txs init_state)) \<and>
   distinct (minted_ids (run_txs H txs init_state)) \<and>
   (upgrade_re (run_calls H ts nested3) e a b (run_txs H txs' init_state) = Inr s3' \<longrightarrow>
      a < nextId (run_txs H txs' init_state) \<and> b < nextId (run_txs H txs' init_state))"
proof (intro conjI impI)
  assume m: "mintCard_re (run_calls H ts nested1) H e s1 = Inr s1'"
  have x: "extends s1 s1'"
    using run_calls_extends m by (rule mintCard_re_extends(1))
  show "prefix (events s1 @ [Transfer 0 (msg_sender e) (nextId s1)]) (events s1')"
    using run_calls_extends m by (rule mintCard_re_extends(2))
  show "unat (nextId (at_hook (msg_sender e) s1)) = unat (nextId s1) + 1"
    using m less_succ(3) [of "nextId s1"] by (simp add: mintCard_re_Inr at_hook_fields)
  show "nextId s1' = nextId (run_calls H ts nested1 (at_hook (msg_sender e) s1))"
    using m by (simp add: mintCard_re_Inr)
  show "unat (nextId s1) < unat (nextId s1')"
    using run_calls_extends m by (rule mintCard_re_extends(3))
  show "map unat (minted_ids s1') =
        map unat (minted_ids s1) @ [unat (nextId s1)..<unat (nextId s1')]"
    using x by (simp add: extends_def)
next
  assume u: "upgrade_re (run_calls H ts nested2) e id1 id2 s2 = Inr s2'"
  have x: "extends s2 s2'"
    using run_calls_extends u by (rule upgrade_re_extends(1))
  show "prefix (events s2 @ [Transfer (msg_sender e) 0 id1, Transfer (msg_sender e) 0 id2,
                           Transfer 0 (msg_sender e) (nextId s2)]) (events s2')"
    using run_calls_extends u by (rule upgrade_re_extends(2))
  from u obtain t c where
    t: "t = snd (update 0 id2 (snd (update 0 id1 s2)))" and
    n: "unat (nextId t) + 1 < 2 ^ 256" and
    s': "s2' = (run_calls H ts nested2 (at_hook (msg_sender e) t))
             \<lparr>cards := (cards (run_calls H ts nested2 (at_hook (msg_sender e) t)))
                (nextId t := c)\<rparr>"
    by (rule upgrade_reE)
  have nt: "nextId t = nextId s2"
    by (simp add: t update_fields)
  show "unat (nextId (at_hook (msg_sender e) (snd (update 0 id2 (snd (update 0 id1 s2))))))
        = unat (nextId s2) + 1"
    using less_succ(3) [OF n] by (simp add: at_hook_fields nt flip: t)
  show "nextId s2' = nextId (run_calls H ts nested2
        (at_hook (msg_sender e) (snd (update 0 id2 (snd (update 0 id1 s2))))))"
    by (simp add: s' t)
  show "unat (nextId s2) < unat (nextId s2')"
    using run_calls_extends u by (rule upgrade_re_extends(3))
  show "map unat (minted_ids s2') =
        map unat (minted_ids s2) @ [unat (nextId s2)..<unat (nextId s2')]"
    using x by (simp add: extends_def)
next
  show i: "map unat (minted_ids (run_txs H txs init_state))
     = [1..<unat (nextId (run_txs H txs init_state))]"
    by (rule minted_from_init)
  show "sorted_wrt (<) (minted_ids (run_txs H txs init_state))"
    using i by (rule increasing_of_unat)
  show "distinct (minted_ids (run_txs H txs init_state))"
    using i by (rule increasing_of_unat)
next
  assume u: "upgrade_re (run_calls H ts nested3) e a b (run_txs H txs' init_state) = Inr s3'"
  have "owned_below init_state"
    by (simp add: owned_below_def init_state_def)
  then have ok: "owned_below (run_txs H txs' init_state)"
    by (rule run_txs_owned)
  show "a < nextId (run_txs H txs' init_state)" "b < nextId (run_txs H txs' init_state)"
    using u ok by (rule upgrade_re_inputs)+
qed

theorem card_ids_increase_witness:
  "mintCard_re (run_calls (\<lambda>_. 4) 1700000000 (Call alice True (Upgrade 1 2) Done Done))
     (\<lambda>_. 4) demo_env minted_once = Inr reentered \<and>
   prefix (events minted_once @ [Transfer 0 (msg_sender demo_env) (nextId minted_once)])
     (events reentered) \<and>
   unat (nextId minted_once) < unat (nextId reentered) \<and>
   map unat (minted_ids reentered) =
     map unat (minted_ids minted_once) @ [unat (nextId minted_once)..<unat (nextId reentered)] \<and>
   upgrade_re (run_calls (\<lambda>_. 4) 1700000000 Done) demo_env 1 2 minted_twice = Inr fused \<and>
   prefix (events minted_twice @ [Transfer (msg_sender demo_env) 0 1,
       Transfer (msg_sender demo_env) 0 2, Transfer 0 (msg_sender demo_env) (nextId minted_twice)])
     (events fused) \<and>
   unat (nextId minted_twice) < unat (nextId fused) \<and>
   map unat (minted_ids fused) =
     map unat (minted_ids minted_twice) @ [unat (nextId minted_twice)..<unat (nextId fused)] \<and>
   run_txs (\<lambda>_. 4)
     [(1700000000, Call alice True MintCard Done Done),
      (1700000000, Call alice True MintCard (Call alice True (Upgrade 1 2) Done Done) Done)]
     init_state = reentered \<and>
   map unat (minted_ids reentered) = [1..<unat (nextId reentered)] \<and>
   sorted_wrt (<) (minted_ids reentered) \<and> distinct (minted_ids reentered) \<and>
   run_txs (\<lambda>_. 4)
     [(1700000000, Call alice True MintCard Done Done),
      (1700000000, Call alice True MintCard Done Done)] init_state = minted_twice \<and>
   1 < nextId minted_twice \<and> 2 < nextId minted_twice"
proof -
  note T = card_ids_increase [of "\<lambda>_. 4" 1700000000
        "Call alice True (Upgrade 1 2) Done Done" demo_env minted_once reentered
        Done 1 2 minted_twice fused
        "[(1700000000, Call alice True MintCard Done Done),
          (1700000000, Call alice True MintCard (Call alice True (Upgrade 1 2) Done Done) Done)]"
        Done 1 2
        "[(1700000000, Call alice True MintCard Done Done),
          (1700000000, Call alice True MintCard Done Done)]" fused,
        unfolded run_txs_reentered run_txs_demo]
  from T mint_reentered upgrade_re_demo run_txs_reentered run_txs_demo show ?thesis
    by blast
qed

text \<open>
  C8: the draw is a function of its seed parts only. Two environments with the same
  timestamp and sender give the same draw for the same token id in \<open>mintCard\<close> and
  the same draw in \<open>battle\<close>, and two successful mints with the same seed parts
  store the same card, whatever else differs in environment and storage. The draw
  has no failing branch: it is a plain 256-bit word.
\<close>

theorem derive_deterministic:
  assumes "block_timestamp e1 = block_timestamp e2" and "msg_sender e1 = msg_sender e2"
    and "t1 = t2"
  shows "derive_mint H e1 t1 = derive_mint H e2 t2 \<and> derive_battle H e1 = derive_battle H e2 \<and>
         (nextId s1 = t1 \<and> nextId s2 = t2 \<and> mintCard H e1 s1 = Inr s1' \<and>
          mintCard H e2 s2 = Inr s2' \<longrightarrow> cards s1' t1 = cards s2' t2)"
proof -
  have d: "derive_mint H e1 t1 = derive_mint H e2 t2"
    using assms by (simp add: derive_mint_def)
  moreover have "derive_battle H e1 = derive_battle H e2"
    using assms by (simp add: derive_battle_def)
  moreover have "cards s1' t1 = cards s2' t2"
    if "nextId s1 = t1 \<and> nextId s2 = t2 \<and> mintCard H e1 s1 = Inr s1' \<and> mintCard H e2 s2 = Inr s2'"
    using that d mintCard_card [of H e1 s1 s1'] mintCard_card [of H e2 s2 s2'] by auto
  ultimately show ?thesis
    by blast
qed

theorem derive_deterministic_witness:
  "block_timestamp demo_env = block_timestamp picky_env \<and>
   msg_sender demo_env = msg_sender picky_env \<and> demo_env \<noteq> picky_env \<and>
   derive_mint (\<lambda>_. 4) demo_env 1 = derive_mint (\<lambda>_. 4) picky_env 1 \<and>
   derive_battle (\<lambda>_. 4) demo_env = derive_battle (\<lambda>_. 4) picky_env \<and>
   nextId init_state = 1 \<and> mintCard (\<lambda>_. 4) demo_env init_state = Inr minted_once \<and>
   mintCard (\<lambda>_. 4) picky_env init_state = Inr minted_once \<and>
   cards minted_once 1 = cards minted_once 1"
proof -
  have h: "block_timestamp demo_env = block_timestamp picky_env"
    "msg_sender demo_env = msg_sender picky_env"
    by (simp_all add: demo_env_def picky_env_def)
  have n: "nextId init_state = 1"
    by (simp add: init_state_def)
  have "onERC721Received demo_env alice 2 \<noteq> onERC721Received picky_env alice 2"
    by (simp add: demo_env_def picky_env_def)
  then have d: "demo_env \<noteq> picky_env"
    by auto
  show ?thesis
    using derive_deterministic [OF h refl, of "\<lambda>_. 4" 1 init_state init_state minted_once minted_once]
      h n d mint_once mint_picky by simp
qed

text \<open>
  C9: a call of \<open>battle\<close> leaves the storage as it was, whether it returns or
  reverts: the id counter, the cards table and the owners are the same before and
  after, the call yields the returned string or the error only, and a call of
  \<open>battle\<close> anywhere in a list of calls can be left out without changing the
  storage the list ends in.
\<close>

theorem battle_is_pure:
  "snd (exec H e (Battle card1 card2) s) = s \<and>
   nextId (snd (exec H e (Battle card1 card2) s)) = nextId s \<and>
   cards (snd (exec H e (Battle card1 card2) s)) = cards s \<and>
   owners (snd (exec H e (Battle card1 card2) s)) = owners s \<and>
   fst (exec H e (Battle card1 card2) s) = map_sum id StringVal (battle H e card1 card2 s) \<and>
   run H (xs @ (e, Battle card1 card2) # ys) s = run H (xs @ ys) s"
proof -
  have p: "snd (exec H e (Battle card1 card2) t) = t" for t
    by (simp add: exec_def)
  have "run H (xs @ (e, Battle card1 card2) # ys) s = run H (xs @ ys) s"
    by (simp add: run_append p)
  moreover have "fst (exec H e (Battle card1 card2) s)
      = map_sum id StringVal (battle H e card1 card2 s)"
    by (simp add: exec_def)
  ultimately show ?thesis
    by (simp add: p)
qed

text \<open>
  C10: the four attributes of a minted card come from one draw \<open>r\<close>: power is
  \<open>r mod 50 + 50\<close>, defense \<open>r mod 40 + 30\<close>, speed \<open>r mod 20 + 10\<close>, rarity
  \<open>r mod 5 + 1\<close>; so power - 50, defense - 30 and speed - 10 are pairwise congruent
  modulo 10, and rarity is \<open>(power - 50) mod 5 + 1\<close>.
\<close>

theorem mintCard_shared_draw:
  assumes "mintCard H e s = Inr s'"
  shows "let r = unat (derive_mint H e (nextId s)); c = cards s' (nextId s);
             p = unat (power_stat c); d = unat (defense c); v = unat (speed c)
         in p = r mod 50 + 50 \<and> d = r mod 40 + 30 \<and> v = r mod 20 + 10 \<and>
            unat (rarity c) = r mod 5 + 1 \<and>
            (p - 50) mod 10 = (d - 30) mod 10 \<and> (d - 30) mod 10 = (v - 10) mod 10 \<and>
            (p - 50) mod 10 = (v - 10) mod 10 \<and>
            unat (rarity c) = (p - 50) mod 5 + 1"
  unfolding mintCard_card [OF assms] Let_def
  by (simp add: unat_attr unat_rarity mod_mod_cancel)

theorem mintCard_shared_draw_witness:
  "mintCard (\<lambda>_. 4) demo_env init_state = Inr minted_once \<and>
   (let r = unat (derive_mint (\<lambda>_. 4) demo_env (nextId init_state));
        c = cards minted_once (nextId init_state);
        p = unat (power_stat c); d = unat (defense c); v = unat (speed c)
    in p = r mod 50 + 50 \<and> d = r mod 40 + 30 \<and> v = r mod 20 + 10 \<and>
       unat (rarity c) = r mod 5 + 1 \<and>
       (p - 50) mod 10 = (d - 30) mod 10 \<and> (d - 30) mod 10 = (v - 10) mod 10 \<and>
       (p - 50) mod 10 = (v - 10) mod 10 \<and>
       unat (rarity c) = (p - 50) mod 5 + 1)"
  using mintCard_shared_draw [OF mint_once] mint_once by simp

end
